theory Spec2Isabelle
  imports Main
begin

section \<open>The memoized Fibonacci service of app/app.py\<close>

subsection \<open>The state of the \<open>lru_cache\<close> decorator\<close>

text \<open>
  \<open>fib\<close> is decorated with \<open>@lru_cache(maxsize=None)\<close>: an unbounded dictionary from the
  argument to the result, together with the two counters that \<open>fib.cache_info()\<close> reports.
  Python's integers are unbounded, so keys and values are \<open>int\<close>.
\<close>

record lru =
  cache :: "int \<rightharpoonup> int"
  hits :: nat
  misses :: nat

definition empty_lru :: lru where
  "empty_lru = \<lparr>cache = Map.empty, hits = 0, misses = 0\<rparr>"

subsection \<open>The evaluator \<open>fib\<close>\<close>

text \<open>
  The decorated function. A call first looks the argument up: on a hit the stored value
  is returned and \<open>hits\<close> is incremented; on a miss \<open>misses\<close> is incremented, the body
  \<^verbatim>\<open>if n < 2: return n\<close> / \<^verbatim>\<open>return fib(n-1) + fib(n-2)\<close> runs (the left operand first),
  and its result is stored under the argument. The body contains no \<open>raise\<close>.
\<close>

function fib :: "int \<Rightarrow> lru \<Rightarrow> int \<times> lru" where
  "fib n s =
     (case cache s n of
        Some v \<Rightarrow> (v, s\<lparr>hits := hits s + 1\<rparr>)
      | None \<Rightarrow>
          (let s0 = s\<lparr>misses := misses s + 1\<rparr>;
               (r, s') = (if n < 2 then (n, s0)
                          else (let (a, s1) = fib (n - 1) s0;
                                    (b, s2) = fib (n - 2) s1
                                in (a + b, s2)))
           in (r, s'\<lparr>cache := (cache s')(n \<mapsto> r)\<rparr>)))"
  by pat_completeness auto
termination
  by (relation "measure (\<lambda>(n, s). nat n)") auto

declare fib.simps [simp del]

text \<open>The body as written, without the decorator: the function that the cache memoizes.\<close>

function fib_plain :: "int \<Rightarrow> int" where
  "fib_plain n = (if n < 2 then n else fib_plain (n - 1) + fib_plain (n - 2))"
  by pat_completeness auto
termination
  by (relation "measure nat") auto

declare fib_plain.simps [simp del]

text \<open>
  The same recursion with a bound on its depth: \<open>None\<close> when a call would need more
  than \<open>d\<close> nested activations of \<open>fib\<close>.
\<close>

fun fib_depth :: "nat \<Rightarrow> int \<Rightarrow> lru \<Rightarrow> (int \<times> lru) option" where
  "fib_depth 0 n s = None"
| "fib_depth (Suc d) n s =
     (case cache s n of
        Some v \<Rightarrow> Some (v, s\<lparr>hits := hits s + 1\<rparr>)
      | None \<Rightarrow>
          (let s0 = s\<lparr>misses := misses s + 1\<rparr> in
           if n < 2 then Some (n, s0\<lparr>cache := (cache s0)(n \<mapsto> n)\<rparr>)
           else (case fib_depth d (n - 1) s0 of
                   None \<Rightarrow> None
                 | Some (a, s1) \<Rightarrow>
                     (case fib_depth d (n - 2) s1 of
                        None \<Rightarrow> None
                      | Some (b, s2) \<Rightarrow> Some (a + b, s2\<lparr>cache := (cache s2)(n \<mapsto> a + b)\<rparr>)))))"

text \<open>
  What the caller of \<open>fib\<close> observes: a Python call either raises or returns. No
  statement of \<open>fib\<close> raises, so every call returns.
\<close>

datatype error = InvalidArgument

definition fib_call :: "int \<Rightarrow> lru \<Rightarrow> (error + int) \<times> lru" where
  "fib_call n s = (case fib n s of (v, s') \<Rightarrow> (Inr v, s'))"

subsection \<open>The request handler \<open>get_fib\<close>\<close>

text \<open>
  \<open>jsonify\<close> of a dictionary is a JSON object, kept as the list of its members; the
  handler returns the body together with the status code.
\<close>

datatype json = JInt int | JStr string

type_synonym response = "(string \<times> json) list \<times> nat"

definition get_fib :: "int \<Rightarrow> lru \<Rightarrow> response \<times> lru" where
  "get_fib n s =
     (if n < 0 then (([(''error'', JStr ''Please provide a non-negative integer'')], 400), s)
      else (let (result, s') = fib n s
            in (([(''n'', JInt n), (''fib'', JInt result)], 200), s')))"

subsection \<open>Reachable states\<close>

text \<open>
  The cache is created empty when the process starts and changes only through calls of
  \<open>fib\<close>, made directly with any integer or by the handler.
\<close>

inductive reachable :: "lru \<Rightarrow> bool" where
  start: "reachable empty_lru"
| call: "reachable s \<Longrightarrow> reachable (snd (fib n s))"
| request: "reachable s \<Longrightarrow> reachable (snd (get_fib n s))"

text \<open>The states that the service reaches when \<open>fib\<close> is called by the handler only.\<close>

inductive served :: "lru \<Rightarrow> bool" where
  boot: "served empty_lru"
| handle: "served s \<Longrightarrow> served (snd (get_fib n s))"

subsection \<open>The reference definition\<close>

text \<open>
  The Fibonacci numbers as the specification defines them, for indices from 0:
  \<open>fib(0) = 0\<close>, \<open>fib(1) = 1\<close>, \<open>fib(n) = fib(n-1) + fib(n-2)\<close> for \<open>n \<ge> 2\<close>. The
  definition gives no value to a negative index.
\<close>

fun fib_nat :: "nat \<Rightarrow> int" where
  "fib_nat 0 = 0"
| "fib_nat (Suc 0) = 1"
| "fib_nat (Suc (Suc k)) = fib_nat (Suc k) + fib_nat k"

definition fib_ref :: "int \<Rightarrow> int option" where
  "fib_ref n = (if n < 0 then None else Some (fib_nat (nat n)))"

text \<open>Every stored value is the value of the undecorated function at its key.\<close>

definition cache_ok :: "lru \<Rightarrow> bool" where
  "cache_ok s \<longleftrightarrow> (\<forall>k v. cache s k = Some v \<longrightarrow> v = fib_plain k)"

section \<open>Unfolding one call\<close>

lemma fib_hit: "cache s n = Some v \<Longrightarrow> fib n s = (v, s\<lparr>hits := hits s + 1\<rparr>)"
  by (simp add: fib.simps [of n s])

lemma fib_miss_base:
  "cache s n = None \<Longrightarrow> n < 2 \<Longrightarrow>
   fib n s = (n, s\<lparr>misses := misses s + 1, cache := (cache s)(n \<mapsto> n)\<rparr>)"
  by (simp add: fib.simps [of n s])

lemma fib_miss_rec:
  "cache s n = None \<Longrightarrow> \<not> n < 2 \<Longrightarrow>
   fib n s =
     (let (a, s1) = fib (n - 1) (s\<lparr>misses := misses s + 1\<rparr>);
          (b, s2) = fib (n - 2) s1
      in (a + b, s2\<lparr>cache := (cache s2)(n \<mapsto> a + b)\<rparr>))"
  by (simp add: fib.simps [of n s] Let_def split: prod.splits)

section \<open>The undecorated function and the reference definition\<close>

lemma fib_plain_small: "n < 2 \<Longrightarrow> fib_plain n = n"
  by (simp add: fib_plain.simps [of n])

lemma fib_plain_rec: "2 \<le> n \<Longrightarrow> fib_plain n = fib_plain (n - 1) + fib_plain (n - 2)"
  by (simp add: fib_plain.simps [of n])

lemma fib_plain_nat: "fib_plain (int k) = fib_nat k"
proof (induction k rule: fib_nat.induct)
  case 1
  show ?case by (simp add: fib_plain_small)
next
  case 2
  show ?case by (simp add: fib_plain_small)
next
  case (3 k)
  have "fib_plain (int (Suc (Suc k))) = fib_plain (int (Suc k)) + fib_plain (int k)"
    using fib_plain_rec [of "int (Suc (Suc k))"] by (simp add: algebra_simps)
  with 3 show ?case by simp
qed

lemma fib_plain_ref: "0 \<le> n \<Longrightarrow> fib_ref n = Some (fib_plain n)"
  using fib_plain_nat [of "nat n"] by (simp add: fib_ref_def)

section \<open>Correctness of the memoization\<close>

lemma cache_ok_hits [simp]: "cache_ok (s\<lparr>hits := h\<rparr>) = cache_ok s"
  by (simp add: cache_ok_def)

lemma cache_ok_misses [simp]: "cache_ok (s\<lparr>misses := m\<rparr>) = cache_ok s"
  by (simp add: cache_ok_def)

lemma cache_ok_store:
  "cache_ok s \<Longrightarrow> r = fib_plain n \<Longrightarrow> cache_ok (s\<lparr>cache := (cache s)(n \<mapsto> r)\<rparr>)"
  by (simp add: cache_ok_def)

lemma fib_sound: "cache_ok s \<Longrightarrow> fst (fib n s) = fib_plain n \<and> cache_ok (snd (fib n s))"
proof (induction n s rule: fib.induct)
  case (1 n s)
  show ?case
  proof (cases "cache s n")
    case (Some v)
    with "1.prems" show ?thesis
      by (simp add: fib_hit cache_ok_def)
  next
    case None
    show ?thesis
    proof (cases "n < 2")
      case True
      with None "1.prems" show ?thesis
        by (simp add: fib_miss_base fib_plain_small cache_ok_def)
    next
      case False
      let ?s0 = "s\<lparr>misses := misses s + 1\<rparr>"
      obtain a s1 where c1: "fib (n - 1) ?s0 = (a, s1)" by (cases "fib (n - 1) ?s0")
      obtain b s2 where c2: "fib (n - 2) s1 = (b, s2)" by (cases "fib (n - 2) s1")
      have ok0: "cache_ok ?s0" using "1.prems" by simp
      from "1.IH"(1) [OF None refl False ok0] c1
      have a: "a = fib_plain (n - 1)" and ok1: "cache_ok s1" by simp_all
      from "1.IH"(2) [OF None refl False c1 [symmetric] refl ok1] c2
      have b: "b = fib_plain (n - 2)" and ok2: "cache_ok s2" by simp_all
      have r: "a + b = fib_plain n" using a b False by (simp add: fib_plain_rec)
      show ?thesis using None False c1 c2 r cache_ok_store [OF ok2 r]
        by (simp add: fib_miss_rec)
    qed
  qed
qed


section \<open>Which entries a call changes\<close>

text \<open>
  A call with argument \<open>n\<close> only adds keys between \<open>min n 0\<close> and \<open>n\<close>, and never
  overwrites one.
\<close>

lemma fib_untouched:
  "k < min n 0 \<or> n < k \<Longrightarrow> cache (snd (fib n s)) k = cache s k"
proof (induction n s rule: fib.induct)
  case (1 n s)
  show ?case
  proof (cases "cache s n")
    case (Some v)
    then show ?thesis by (simp add: fib_hit)
  next
    case None
    show ?thesis
    proof (cases "n < 2")
      case True
      with None "1.prems" show ?thesis
        by (auto simp: fib_miss_base)
    next
      case False
      let ?s0 = "s\<lparr>misses := misses s + 1\<rparr>"
      obtain a s1 where c1: "fib (n - 1) ?s0 = (a, s1)" by (cases "fib (n - 1) ?s0")
      obtain b s2 where c2: "fib (n - 2) s1 = (b, s2)" by (cases "fib (n - 2) s1")
      have k1: "k < min (n - 1) 0 \<or> n - 1 < k" using "1.prems" False by auto
      have k2: "k < min (n - 2) 0 \<or> n - 2 < k" using "1.prems" False by auto
      from "1.IH"(1) [OF None refl False k1] c1
      have e1: "cache s1 k = cache s k" by simp
      from "1.IH"(2) [OF None refl False c1 [symmetric] refl k2] c2
      have e2: "cache s2 k = cache s1 k" by simp
      have "k \<noteq> n" using "1.prems" False by auto
      then show ?thesis using None False c1 c2 e1 e2
        by (simp add: fib_miss_rec)
    qed
  qed
qed

lemma fib_keeps:
  "cache s k = Some v \<Longrightarrow> cache (snd (fib n s)) k = Some v"
proof (induction n s rule: fib.induct)
  case (1 n s)
  show ?case
  proof (cases "cache s n")
    case (Some w)
    with "1.prems" show ?thesis by (simp add: fib_hit)
  next
    case None
    then have kn: "k \<noteq> n" using "1.prems" by auto
    show ?thesis
    proof (cases "n < 2")
      case True
      with None kn "1.prems" show ?thesis
        by (simp add: fib_miss_base)
    next
      case False
      let ?s0 = "s\<lparr>misses := misses s + 1\<rparr>"
      obtain a s1 where c1: "fib (n - 1) ?s0 = (a, s1)" by (cases "fib (n - 1) ?s0")
      obtain b s2 where c2: "fib (n - 2) s1 = (b, s2)" by (cases "fib (n - 2) s1")
      have p0: "cache ?s0 k = Some v" using "1.prems" by simp
      from "1.IH"(1) [OF None refl False p0] c1
      have p1: "cache s1 k = Some v" by simp
      from "1.IH"(2) [OF None refl False c1 [symmetric] refl p1] c2
      have p2: "cache s2 k = Some v" by simp
      show ?thesis using None False c1 c2 p2 kn
        by (simp add: fib_miss_rec)
    qed
  qed
qed

lemma fib_stores: "cache (snd (fib n s)) n = Some (fst (fib n s))"
proof (cases "cache s n")
  case (Some v)
  then show ?thesis by (simp add: fib_hit)
next
  case None
  show ?thesis
  proof (cases "n < 2")
    case True
    with None show ?thesis by (simp add: fib_miss_base)
  next
    case False
    with None show ?thesis
      by (simp add: fib_miss_rec Let_def split: prod.splits)
  qed
qed

text \<open>Every call of \<open>fib\<close> is counted: as a hit or as a miss.\<close>

lemma fib_counts:
  "hits s \<le> hits (snd (fib n s)) \<and> misses s \<le> misses (snd (fib n s)) \<and>
   hits s + misses s < hits (snd (fib n s)) + misses (snd (fib n s))"
proof (induction n s rule: fib.induct)
  case (1 n s)
  show ?case
  proof (cases "cache s n")
    case (Some w)
    then show ?thesis by (simp add: fib_hit)
  next
    case None
    show ?thesis
    proof (cases "n < 2")
      case True
      with None show ?thesis
        by (simp add: fib_miss_base)
    next
      case False
      let ?s0 = "s\<lparr>misses := misses s + 1\<rparr>"
      obtain a s1 where c1: "fib (n - 1) ?s0 = (a, s1)" by (cases "fib (n - 1) ?s0")
      obtain b s2 where c2: "fib (n - 2) s1 = (b, s2)" by (cases "fib (n - 2) s1")
      from "1.IH"(1) [OF None refl False] c1
      have h1: "hits ?s0 \<le> hits s1" "misses ?s0 \<le> misses s1" by simp_all
      from "1.IH"(2) [OF None refl False c1 [symmetric] refl] c2
      have h2: "hits s1 \<le> hits s2" "misses s1 \<le> misses s2" by simp_all
      show ?thesis using None False c1 c2 h1 h2
        by (simp add: fib_miss_rec)
    qed
  qed
qed

section \<open>Depth of the recursion\<close>

lemma fib_depth_enough: "nat n < d \<Longrightarrow> fib_depth d n s = Some (fib n s)"
proof (induction d arbitrary: n s)
  case 0
  then show ?case by simp
next
  case (Suc d)
  show ?case
  proof (cases "cache s n")
    case (Some v)
    then show ?thesis by (simp add: fib_hit)
  next
    case None
    show ?thesis
    proof (cases "n < 2")
      case True
      with None show ?thesis by (simp add: fib_miss_base)
    next
      case False
      let ?s0 = "s\<lparr>misses := misses s + 1\<rparr>"
      obtain a s1 where c1: "fib (n - 1) ?s0 = (a, s1)" by (cases "fib (n - 1) ?s0")
      obtain b s2 where c2: "fib (n - 2) s1 = (b, s2)" by (cases "fib (n - 2) s1")
      have d1: "nat (n - 1) < d" and d2: "nat (n - 2) < d" using Suc.prems False by auto
      have "fib_depth d (n - 1) ?s0 = Some (a, s1)" using Suc.IH [OF d1] c1 by simp
      moreover have "fib_depth d (n - 2) s1 = Some (b, s2)" using Suc.IH [OF d2] c2 by simp
      ultimately show ?thesis using None False c1 c2
        by (simp add: fib_miss_rec)
    qed
  qed
qed

text \<open>
  The bound is reached: while none of the keys \<open>1, \<dots>, n\<close> is cached, a call of \<open>fib n\<close>
  nests \<open>n\<close> activations, and a smaller bound on the depth cuts it off.
\<close>

lemma fib_depth_cold:
  "int d < n \<Longrightarrow> (\<forall>k. 1 \<le> k \<and> k \<le> n \<longrightarrow> cache s k = None) \<Longrightarrow> fib_depth d n s = None"
proof (induction d arbitrary: n s)
  case 0
  show ?case by simp
next
  case (Suc d)
  let ?s0 = "s\<lparr>misses := misses s + 1\<rparr>"
  from Suc.prems have n: "\<not> n < 2" and c: "cache s n = None" by auto
  have "int d < n - 1" using Suc.prems(1) by simp
  moreover have "\<forall>k. 1 \<le> k \<and> k \<le> n - 1 \<longrightarrow> cache ?s0 k = None"
    using Suc.prems(2) by simp
  ultimately have "fib_depth d (n - 1) ?s0 = None" by (rule Suc.IH)
  with n c show ?case by simp
qed

section \<open>The invariant of the reachable states\<close>

lemma cache_ok_empty: "cache_ok empty_lru"
  by (simp add: cache_ok_def empty_lru_def)

lemma get_fib_state: "snd (get_fib n s) = (if n < 0 then s else snd (fib n s))"
  by (simp add: get_fib_def split: prod.splits)

lemma reachable_cache_ok: "reachable s \<Longrightarrow> cache_ok s"
proof (induction rule: reachable.induct)
  case start
  show ?case by (rule cache_ok_empty)
next
  case (call s n)
  then show ?case by (simp add: fib_sound)
next
  case (request s n)
  then show ?case by (simp add: get_fib_state fib_sound)
qed

lemma served_reachable: "served s \<Longrightarrow> reachable s"
  by (induction rule: served.induct) (auto intro: reachable.intros)

lemma served_keys: "served s \<Longrightarrow> cache s k = Some v \<Longrightarrow> 0 \<le> k"
proof (induction arbitrary: v rule: served.induct)
  case boot
  then show ?case by (simp add: empty_lru_def)
next
  case (handle s n)
  show ?case
  proof (rule ccontr)
    assume "\<not> 0 \<le> k"
    then have neg: "k < 0" by simp
    show False
    proof (cases "n < 0")
      case True
      with handle neg show ?thesis by (simp add: get_fib_state)
    next
      case False
      then have "cache (snd (fib n s)) k = cache s k"
        using neg fib_untouched [of k n s] by simp
      with handle False neg show ?thesis by (simp add: get_fib_state)
    qed
  qed
qed

lemma fib_value: "reachable s \<Longrightarrow> fst (fib n s) = fib_plain n"
  by (simp add: reachable_cache_ok fib_sound)

lemma fib_value_ref: "reachable s \<Longrightarrow> 0 \<le> n \<Longrightarrow> fib_ref n = Some (fst (fib n s))"
  by (simp add: fib_value fib_plain_ref)

lemma fib_value_start: "fst (fib n empty_lru) = fib_plain n"
  by (rule fib_value [OF reachable.start])

section \<open>Sign, monotonicity and growth\<close>

lemma fib_nat_nonneg: "0 \<le> fib_nat k"
  by (induction k rule: fib_nat.induct) simp_all

lemma fib_nat_Suc_pos: "1 \<le> fib_nat (Suc k)"
proof (induction k rule: fib_nat.induct)
  case (3 k)
  then show ?case using fib_nat_nonneg [of "Suc k"] by simp
qed simp_all

lemma fib_nat_step: "fib_nat k \<le> fib_nat (Suc k)"
proof (cases k)
  case 0
  then show ?thesis by simp
next
  case (Suc j)
  then show ?thesis using fib_nat_nonneg [of j] by simp
qed

lemma fib_nat_mono: "j \<le> k \<Longrightarrow> fib_nat j \<le> fib_nat k"
  by (rule lift_Suc_mono_le [of fib_nat]) (simp_all add: fib_nat_step)

lemma fib_nat_grows: "int k < fib_nat (k + 3)"
proof (induction k)
  case 0
  show ?case by (simp add: numeral_3_eq_3)
next
  case (Suc k)
  have "fib_nat (Suc k + 3) = fib_nat (k + 3) + fib_nat (Suc (Suc k))"
    by (simp add: numeral_3_eq_3)
  with Suc fib_nat_Suc_pos [of "Suc k"] show ?case by simp
qed

lemma fib_plain_nonneg: "0 \<le> n \<Longrightarrow> 0 \<le> fib_plain n"
  using fib_plain_nat [of "nat n"] fib_nat_nonneg [of "nat n"] by simp

lemma fib_plain_mono: "0 \<le> m \<Longrightarrow> m \<le> n \<Longrightarrow> fib_plain m \<le> fib_plain n"
  using fib_plain_nat [of "nat m"] fib_plain_nat [of "nat n"] fib_nat_mono [of "nat m" "nat n"]
  by simp

lemma fib_plain_grows: "0 \<le> b \<Longrightarrow> b < fib_plain (b + 3)"
  using fib_plain_nat [of "nat b + 3"] fib_nat_grows [of "nat b"] by simp

section \<open>Values at given indices\<close>

lemma fib_call_value: "fst (fib_call n s) = Inr (fst (fib n s))"
  by (simp add: fib_call_def split: prod.splits)

lemma fib_plain_10: "fib_plain 10 = 55"
proof -
  have "fst (fib 10 empty_lru) = 55" by code_simp
  then show ?thesis by (simp add: fib_value_start)
qed

lemma fib_plain_20: "fib_plain 20 = 6765"
proof -
  have "fst (fib 20 empty_lru) = 6765" by code_simp
  then show ?thesis by (simp add: fib_value_start)
qed

lemma fib_plain_93: "fib_plain 93 = 12200160415121876738"
proof -
  have "fst (fib 93 empty_lru) = 12200160415121876738" by code_simp
  then show ?thesis by (simp add: fib_value_start)
qed

lemma fib_plain_92: "fib_plain 92 = 7540113804746346429"
proof -
  have "fst (fib 92 empty_lru) = 7540113804746346429" by code_simp
  then show ?thesis by (simp add: fib_value_start)
qed

text \<open>Every call of \<open>fib\<close> changes the counters.\<close>

lemma fib_changes_counts:
  "hits s + misses s < hits (snd (fib n s)) + misses (snd (fib n s))"
  using fib_counts [of s n] by simp

section \<open>The claims\<close>

text \<open>
  C1. For every \<open>n \<ge> 0\<close> and in every reachable state, \<open>fib n\<close> returns the \<open>n\<close>-th
  Fibonacci number of the reference definition: it returns 0 at 0 and 1 at 1, for
  \<open>n \<ge> 2\<close> its value is the sum of the values returned for \<open>n - 1\<close> and \<open>n - 2\<close> (in
  whatever reachable states those calls are made), and it returns 55 at 10 and 6765 at 20.
\<close>

theorem fib_reference:
  "reachable s \<Longrightarrow> reachable s1 \<Longrightarrow> reachable s2 \<Longrightarrow> 0 \<le> n \<Longrightarrow>
   fib_ref n = Some (fst (fib n s)) \<and>
   fst (fib 0 s) = 0 \<and> fst (fib 1 s) = 1 \<and>
   (2 \<le> n \<longrightarrow> fst (fib n s) = fst (fib (n - 1) s1) + fst (fib (n - 2) s2)) \<and>
   fst (fib 10 s) = 55 \<and> fst (fib 20 s) = 6765"
  by (simp add: fib_value fib_plain_ref fib_plain_small fib_plain_rec fib_plain_10 fib_plain_20)

text \<open>
  The theorem at \<open>n = 12\<close>, in the state after \<open>fib(3)\<close>, with the two operands
  evaluated in a fresh state and in the state after a request for 7.
\<close>

theorem fib_reference_witness:
  "fib_ref 12 = Some (fst (fib 12 (snd (fib 3 empty_lru)))) \<and>
   fst (fib 12 (snd (fib 3 empty_lru))) =
     fst (fib 11 empty_lru) + fst (fib 10 (snd (get_fib 7 empty_lru))) \<and>
   fst (fib 12 (snd (fib 3 empty_lru))) = 144"
proof -
  have r: "reachable (snd (fib 3 empty_lru))"
    by (rule reachable.call [OF reachable.start])
  have r2: "reachable (snd (get_fib 7 empty_lru))"
    by (rule reachable.request [OF reachable.start])
  have n: "(0::int) \<le> 12" by simp
  have v: "fst (fib 12 (snd (fib 3 empty_lru))) = 144" by code_simp
  from fib_reference [OF r reachable.start r2 n] v show ?thesis by simp
qed

text \<open>
  C2, as the code behaves. A direct call of \<open>fib\<close> with \<open>n < 0\<close> does not fail: in every
  reachable state it returns \<open>n\<close>. The negative index is rejected by the handler
  \<open>get_fib\<close>, which answers with the error body and status 400 and leaves the state of
  \<open>fib\<close> as it was.
\<close>

theorem negative_rejected_by_handler:
  "reachable s \<Longrightarrow> n < 0 \<Longrightarrow>
   fst (fib_call n s) = Inr n \<and>
   get_fib n s = (([(''error'', JStr ''Please provide a non-negative integer'')], 400), s)"
  by (simp add: fib_call_value fib_value fib_plain_small get_fib_def)

theorem negative_rejected_by_handler_witness:
  "fst (fib_call (- 5) (snd (fib (- 5) empty_lru))) = Inr (- 5) \<and>
   get_fib (- 5) (snd (fib (- 5) empty_lru)) =
     (([(''error'', JStr ''Please provide a non-negative integer'')], 400),
      snd (fib (- 5) empty_lru))"
proof -
  have r: "reachable (snd (fib (- 5) empty_lru))"
    by (rule reachable.call [OF reachable.start])
  have n: "(- 5 :: int) < 0" by simp
  from negative_rejected_by_handler [OF r n] show ?thesis .
qed

text \<open>
  C2 as stated fails: in a fresh process \<open>fib(-1)\<close> returns \<open>-1\<close> and \<open>fib(-1000)\<close>
  returns \<open>-1000\<close>; neither call ends in \<open>InvalidArgument\<close>.
\<close>

theorem fib_negative_no_error:
  "fst (fib_call (- 1) empty_lru) = Inr (- 1) \<and>
   fst (fib_call (- 1000) empty_lru) = Inr (- 1000) \<and>
   fst (fib_call (- 1) empty_lru) \<noteq> Inl InvalidArgument \<and>
   fst (fib_call (- 1000) empty_lru) \<noteq> Inl InvalidArgument"
  by (simp add: fib_call_value fib_miss_base empty_lru_def)

text \<open>
  C3, as the code behaves. In every reachable state an entry with a key \<open>k \<ge> 0\<close> holds
  the \<open>k\<close>-th Fibonacci number of the reference definition, and an entry with a key
  \<open>k < 0\<close> holds \<open>k\<close>. In the states that the service reaches through \<open>get_fib\<close> alone
  every key is non-negative, so every entry holds the reference value. The cache is
  write-once: neither a call of \<open>fib\<close> nor a request changes an entry that exists.
\<close>

theorem cache_invariant:
  "(reachable s \<longrightarrow> cache s k = Some v \<longrightarrow> (if k < 0 then v = k else fib_ref k = Some v)) \<and>
   (served s \<longrightarrow> cache s k = Some v \<longrightarrow> 0 \<le> k \<and> fib_ref k = Some v) \<and>
   (cache s k = Some v \<longrightarrow>
      cache (snd (fib m s)) k = Some v \<and> cache (snd (get_fib m s)) k = Some v)"
proof -
  have a: "v = fib_plain k" if "reachable s" "cache s k = Some v"
    using reachable_cache_ok [OF that(1)] that(2) by (simp add: cache_ok_def)
  have 1: "reachable s \<longrightarrow> cache s k = Some v \<longrightarrow> (if k < 0 then v = k else fib_ref k = Some v)"
    using a by (auto simp: fib_plain_small fib_plain_ref)
  have 2: "served s \<longrightarrow> cache s k = Some v \<longrightarrow> 0 \<le> k \<and> fib_ref k = Some v"
    using a served_reachable [of s] served_keys [of s k v] by (auto simp: fib_plain_ref)
  have 3: "cache s k = Some v \<longrightarrow>
      cache (snd (fib m s)) k = Some v \<and> cache (snd (get_fib m s)) k = Some v"
    by (simp add: get_fib_state fib_keeps)
  from 1 2 3 show ?thesis by blast
qed

text \<open>
  The theorem in the state after a request for 6, at the key 6, followed by calls for 9;
  and in the state after \<open>fib(-2)\<close>, at the key \<open>-2\<close>.
\<close>

theorem cache_invariant_witness:
  "reachable (snd (get_fib 6 empty_lru)) \<and> served (snd (get_fib 6 empty_lru)) \<and>
   cache (snd (get_fib 6 empty_lru)) 6 = Some 8 \<and>
   fib_ref 6 = Some 8 \<and>
   cache (snd (fib 9 (snd (get_fib 6 empty_lru)))) 6 = Some 8 \<and>
   cache (snd (get_fib 9 (snd (get_fib 6 empty_lru)))) 6 = Some 8 \<and>
   reachable (snd (fib (- 2) empty_lru)) \<and>
   cache (snd (fib (- 2) empty_lru)) (- 2) = Some (- 2)"
proof -
  have r: "reachable (snd (get_fib 6 empty_lru))"
    by (rule reachable.request [OF reachable.start])
  have s: "served (snd (get_fib 6 empty_lru))"
    by (rule served.handle [OF served.boot])
  have c: "cache (snd (get_fib 6 empty_lru)) 6 = Some 8" by code_simp
  have r': "reachable (snd (fib (- 2) empty_lru))"
    by (rule reachable.call [OF reachable.start])
  have c': "cache (snd (fib (- 2) empty_lru)) (- 2) = Some (- 2)"
    by code_simp
  from cache_invariant [of "snd (get_fib 6 empty_lru)" 6 8 9] r s c
    cache_invariant [of "snd (fib (- 2) empty_lru)" "- 2" "- 2" 0] r' c'
  show ?thesis by simp
qed

text \<open>
  C3 as stated fails: the state after \<open>fib(-1)\<close> is reachable and holds the entry
  \<open>-1 \<mapsto> -1\<close>, and the reference definition has no value at \<open>-1\<close>.
\<close>

theorem negative_key_cached:
  "reachable (snd (fib (- 1) empty_lru)) \<and>
   cache (snd (fib (- 1) empty_lru)) (- 1) = Some (- 1) \<and>
   fib_ref (- 1) = None"
proof -
  have "reachable (snd (fib (- 1) empty_lru))"
    by (rule reachable.call [OF reachable.start])
  then show ?thesis
    by (simp add: fib_miss_base empty_lru_def fib_ref_def)
qed

text \<open>
  C4. For every \<open>n \<ge> 2\<close> and every state of the cache (reachable or not), a call of
  \<open>fib n\<close> first looks \<open>n\<close> up. If the key is present the call returns the stored value
  and only counts a hit: a single activation suffices (the recursive case is not
  entered), and the cache and the number of misses (runs of the body) stay as they
  were. If it is absent the call evaluates \<open>fib (n - 1)\<close>, then \<open>fib (n - 2)\<close> in the
  state the first call left, stores the sum under \<open>n\<close> and returns it; the body has run,
  so the number of misses has grown.
\<close>

theorem fib_memoization:
  "2 \<le> n \<Longrightarrow>
   (cache s n = Some v \<longrightarrow>
      fib n s = (v, s\<lparr>hits := hits s + 1\<rparr>) \<and>
      fib_depth 1 n s = Some (v, s\<lparr>hits := hits s + 1\<rparr>) \<and>
      cache (snd (fib n s)) = cache s \<and> misses (snd (fib n s)) = misses s) \<and>
   (cache s n = None \<longrightarrow>
      fib n s =
        (let (a, s1) = fib (n - 1) (s\<lparr>misses := misses s + 1\<rparr>);
             (b, s2) = fib (n - 2) s1
         in (a + b, s2\<lparr>cache := (cache s2)(n \<mapsto> a + b)\<rparr>)) \<and>
      cache (snd (fib n s)) n = Some (fst (fib n s)) \<and>
      misses s < misses (snd (fib n s)))"
proof (intro conjI impI)
  assume h: "cache s n = Some v"
  show "fib n s = (v, s\<lparr>hits := hits s + 1\<rparr>)" by (rule fib_hit [OF h])
  show "fib_depth 1 n s = Some (v, s\<lparr>hits := hits s + 1\<rparr>)" using h by simp
  show "cache (snd (fib n s)) = cache s" by (simp add: fib_hit [OF h])
  show "misses (snd (fib n s)) = misses s" by (simp add: fib_hit [OF h])
next
  assume n: "2 \<le> n" and h: "cache s n = None"
  from n have n2: "\<not> n < 2" by simp
  show "fib n s =
        (let (a, s1) = fib (n - 1) (s\<lparr>misses := misses s + 1\<rparr>);
             (b, s2) = fib (n - 2) s1
         in (a + b, s2\<lparr>cache := (cache s2)(n \<mapsto> a + b)\<rparr>))"
    by (rule fib_miss_rec [OF h n2])
  show "cache (snd (fib n s)) n = Some (fst (fib n s))" by (rule fib_stores)
  let ?s0 = "s\<lparr>misses := misses s + 1\<rparr>"
  obtain a s1 where c1: "fib (n - 1) ?s0 = (a, s1)" by (cases "fib (n - 1) ?s0")
  obtain b s2 where c2: "fib (n - 2) s1 = (b, s2)" by (cases "fib (n - 2) s1")
  have "misses ?s0 \<le> misses s1" using fib_counts [of ?s0 "n - 1"] c1 by simp
  moreover have "misses s1 \<le> misses s2" using fib_counts [of s1 "n - 2"] c2 by simp
  ultimately show "misses s < misses (snd (fib n s))"
    using c1 c2 by (simp add: fib_miss_rec [OF h n2])
qed

text \<open>The theorem at \<open>n = 5\<close>: a hit in the state after \<open>fib(5)\<close>, a miss in the fresh state.\<close>

theorem fib_memoization_witness:
  "cache (snd (fib 5 empty_lru)) 5 = Some 5 \<and>
   fib 5 (snd (fib 5 empty_lru)) =
     (5, (snd (fib 5 empty_lru))\<lparr>hits := hits (snd (fib 5 empty_lru)) + 1\<rparr>) \<and>
   cache empty_lru 5 = None \<and>
   cache (snd (fib 5 empty_lru)) 5 = Some (fst (fib 5 empty_lru)) \<and>
   misses empty_lru < misses (snd (fib 5 empty_lru))"
proof -
  have n: "(2::int) \<le> 5" by simp
  have h: "cache (snd (fib 5 empty_lru)) 5 = Some 5" by code_simp
  have m: "cache empty_lru 5 = None" by (simp add: empty_lru_def)
  from fib_memoization [OF n, of "snd (fib 5 empty_lru)" 5] h
  have hit: "fib 5 (snd (fib 5 empty_lru)) =
     (5, (snd (fib 5 empty_lru))\<lparr>hits := hits (snd (fib 5 empty_lru)) + 1\<rparr>)"
    by blast
  from fib_memoization [OF n, of empty_lru 0] m
  have miss: "cache (snd (fib 5 empty_lru)) 5 = Some (fst (fib 5 empty_lru)) \<and>
     misses empty_lru < misses (snd (fib 5 empty_lru))"
    by blast
  from h hit m miss show ?thesis by blast
qed

text \<open>
  C5. For \<open>n < 0\<close> the handler returns the error body with status 400 and the state of
  \<open>fib\<close> unchanged; for \<open>n \<ge> 0\<close> it returns status 200 with the members \<open>n\<close> and \<open>fib\<close>,
  the latter the value that \<open>fib n\<close> returns, which in a reachable state is the \<open>n\<close>-th
  Fibonacci number. Every call of \<open>fib\<close> is counted as a hit or a miss, so the unchanged
  state of the first case shows that \<open>fib\<close> was not called.
\<close>

theorem get_fib_responses:
  "(n < 0 \<longrightarrow>
      get_fib n s = (([(''error'', JStr ''Please provide a non-negative integer'')], 400), s)) \<and>
   (0 \<le> n \<longrightarrow>
      get_fib n s = (([(''n'', JInt n), (''fib'', JInt (fst (fib n s)))], 200), snd (fib n s))) \<and>
   (0 \<le> n \<longrightarrow> reachable s \<longrightarrow> fib_ref n = Some (fst (fib n s))) \<and>
   hits s + misses s < hits (snd (fib m s)) + misses (snd (fib m s))"
  by (simp add: get_fib_def fib_value_ref fib_changes_counts split: prod.splits)

text \<open>The theorem at \<open>n = -3\<close> and at \<open>n = 10\<close> in a fresh process.\<close>

theorem get_fib_responses_witness:
  "get_fib (- 3) empty_lru =
     (([(''error'', JStr ''Please provide a non-negative integer'')], 400), empty_lru) \<and>
   fst (get_fib 10 empty_lru) = ([(''n'', JInt 10), (''fib'', JInt 55)], 200) \<and>
   fib_ref 10 = Some 55"
proof -
  have v: "fst (fib 10 empty_lru) = 55" by code_simp
  from get_fib_responses [of "- 3" empty_lru 0] get_fib_responses [of 10 empty_lru 0]
    reachable.start v
  show ?thesis by simp
qed

text \<open>
  C6. For every \<open>n \<ge> 0\<close> and every state, the evaluation of \<open>fib n\<close> terminates: the
  recursion never nests deeper than \<open>n + 1\<close> activations, since each recursive call is on
  a smaller argument and arguments below 2 do not recurse. With any such bound on the
  depth the bounded evaluation returns, and returns the result of \<open>fib\<close>; the call ends
  in a value, not in an error.
\<close>

theorem fib_terminates:
  "0 \<le> n \<Longrightarrow> nat n < d \<Longrightarrow>
   fib_depth d n s = Some (fib n s) \<and> fst (fib_call n s) = Inr (fst (fib n s))"
  by (simp add: fib_depth_enough fib_call_value)

text \<open>The theorem at \<open>n = 10\<close> with depth 11 in a fresh process.\<close>

theorem fib_terminates_witness:
  "fib_depth 11 10 empty_lru = Some (fib 10 empty_lru) \<and>
   fst (fib_call 10 empty_lru) = Inr (fst (fib 10 empty_lru))"
proof -
  have n: "(0::int) \<le> 10" and d: "nat 10 < (11::nat)" by simp_all
  from fib_terminates [OF n d] show ?thesis .
qed

text \<open>
  C7. For every \<open>n \<ge> 0\<close> the value of \<open>fib n\<close> is the same in any two reachable states,
  whatever calls led to them, and a second call right after the first returns the same
  value.
\<close>

theorem fib_deterministic:
  "reachable s1 \<Longrightarrow> reachable s2 \<Longrightarrow> 0 \<le> n \<Longrightarrow>
   fst (fib n s1) = fst (fib n s2) \<and> fst (fib n (snd (fib n s1))) = fst (fib n s1)"
  by (simp add: fib_value reachable.call)

text \<open>The theorem at \<open>n = 7\<close>: a fresh process against one that evaluated \<open>-4\<close> and 20.\<close>

theorem fib_deterministic_witness:
  "fst (fib 7 empty_lru) = fst (fib 7 (snd (fib 20 (snd (fib (- 4) empty_lru))))) \<and>
   fst (fib 7 (snd (fib 7 empty_lru))) = fst (fib 7 empty_lru)"
proof -
  have r: "reachable (snd (fib 20 (snd (fib (- 4) empty_lru))))"
    by (intro reachable.call reachable.start)
  have n: "(0::int) \<le> 7" by simp
  from fib_deterministic [OF reachable.start r n] show ?thesis .
qed

text \<open>
  C8. The values are exact integers: for every \<open>n \<ge> 0\<close>, in every reachable state,
  \<open>fib n\<close> is the \<open>n\<close>-th Fibonacci number of the reference definition, with no
  reduction to a machine width. The value at 92 is the last below \<open>2\<^sup>6\<^sup>3\<close>; from 93 on
  every value exceeds the largest signed 64-bit integer, and the values exceed every
  bound \<open>b\<close>.
\<close>

theorem fib_exact_unbounded:
  "reachable s \<Longrightarrow> 0 \<le> n \<Longrightarrow>
   fib_ref n = Some (fst (fib n s)) \<and>
   fst (fib 92 s) = 7540113804746346429 \<and>
   fst (fib 93 s) = 12200160415121876738 \<and>
   (93 \<le> n \<longrightarrow> 2 ^ 63 - 1 < fst (fib n s)) \<and>
   b < fst (fib (max b 0 + 3) s)"
proof (intro conjI impI)
  assume r: "reachable s" and n: "0 \<le> n"
  show "fib_ref n = Some (fst (fib n s))" by (rule fib_value_ref [OF r n])
  show "fst (fib 92 s) = 7540113804746346429" by (simp add: fib_value [OF r] fib_plain_92)
  show "fst (fib 93 s) = 12200160415121876738" by (simp add: fib_value [OF r] fib_plain_93)
  show "b < fst (fib (max b 0 + 3) s)"
    using fib_plain_grows [of "max b 0"] by (simp add: fib_value [OF r])
  assume "93 \<le> n"
  then have "fib_plain 93 \<le> fib_plain n" by (intro fib_plain_mono) simp_all
  then show "2 ^ 63 - 1 < fst (fib n s)" by (simp add: fib_value [OF r] fib_plain_93)
qed

text \<open>The theorem at \<open>n = 100\<close> in a fresh process: a value above \<open>2\<^sup>6\<^sup>4\<close>.\<close>

theorem fib_exact_unbounded_witness:
  "fib_ref 100 = Some (fst (fib 100 empty_lru)) \<and>
   fst (fib 100 empty_lru) = 354224848179261915075 \<and>
   (2 ^ 63 - 1 :: int) < fst (fib 100 empty_lru) \<and>
   (2 ^ 64 :: int) < fst (fib 100 empty_lru)"
proof -
  have n: "(0::int) \<le> 100" by simp
  have v: "fst (fib 100 empty_lru) = 354224848179261915075" by code_simp
  from fib_exact_unbounded [OF reachable.start n, of 0] v show ?thesis by simp
qed

text \<open>
  C9. For every \<open>n < 0\<close>, in every reachable state, \<open>fib n\<close> returns \<open>n\<close> itself, for
  example \<open>-1\<close> at \<open>-1\<close> and \<open>-5\<close> at \<open>-5\<close>. The call does not recurse: one activation
  is enough, and the call ends in a value, not in an error.
\<close>

theorem fib_negative_identity:
  "reachable s \<Longrightarrow> n < 0 \<Longrightarrow>
   fst (fib n s) = n \<and> fib_depth 1 n s = Some (fib n s) \<and>
   fst (fib_call n s) = Inr n \<and>
   fst (fib (- 1) s) = - 1 \<and> fst (fib (- 5) s) = - 5"
proof -
  assume r: "reachable s" and n: "n < 0"
  have d: "fib_depth 1 n s = Some (fib n s)"
    by (rule fib_depth_enough) (use n in simp)
  have v: "fst (fib n s) = n" "fst (fib (- 1) s) = - 1" "fst (fib (- 5) s) = - 5"
    using n by (simp_all add: fib_value [OF r] fib_plain_small)
  from v(1) have e: "fst (fib_call n s) = Inr n" by (simp add: fib_call_value)
  from d v e show ?thesis by blast
qed

text \<open>The theorem at \<open>n = -7\<close> in the state after \<open>fib(4)\<close>.\<close>

theorem fib_negative_identity_witness:
  "fst (fib (- 7) (snd (fib 4 empty_lru))) = - 7 \<and>
   fib_depth 1 (- 7) (snd (fib 4 empty_lru)) = Some (fib (- 7) (snd (fib 4 empty_lru))) \<and>
   fst (fib_call (- 7) (snd (fib 4 empty_lru))) = Inr (- 7)"
proof -
  have r: "reachable (snd (fib 4 empty_lru))"
    by (rule reachable.call [OF reachable.start])
  have n: "(- 7 :: int) < 0" by simp
  from fib_negative_identity [OF r n] show ?thesis by blast
qed

text \<open>
  C10. For every \<open>n \<ge> 0\<close>, whatever the reachable states of the calls, \<open>fib n\<close> is not
  negative and is at most \<open>fib (n + 1)\<close>, hence at most \<open>fib m\<close> for every \<open>m \<ge> n\<close>.
\<close>

theorem fib_nonneg_mono:
  "reachable s \<Longrightarrow> reachable s' \<Longrightarrow> 0 \<le> n \<Longrightarrow>
   0 \<le> fst (fib n s) \<and> fst (fib n s) \<le> fst (fib (n + 1) s') \<and>
   (n \<le> m \<longrightarrow> fst (fib n s) \<le> fst (fib m s'))"
  by (simp add: fib_value fib_plain_nonneg fib_plain_mono)

text \<open>The theorem at \<open>n = 8\<close>, compared with 9 and 15 in the state after \<open>fib(30)\<close>.\<close>

theorem fib_nonneg_mono_witness:
  "0 \<le> fst (fib 8 empty_lru) \<and>
   fst (fib 8 empty_lru) \<le> fst (fib 9 (snd (fib 30 empty_lru))) \<and>
   fst (fib 8 empty_lru) \<le> fst (fib 15 (snd (fib 30 empty_lru)))"
proof -
  have r: "reachable (snd (fib 30 empty_lru))"
    by (rule reachable.call [OF reachable.start])
  have n: "(0::int) \<le> 8" by simp
  from fib_nonneg_mono [OF reachable.start r n, of 15] show ?thesis by simp
qed

end
